theory Spec2Isabelle
  imports Complex_Main
begin

section \<open>The control cycle of main.cpp\<close>

text \<open>
  The embedding follows \<^verbatim>\<open>src/main.cpp\<close>. A C++ \<^verbatim>\<open>double\<close> is modelled as a
  real number, so every statement below is about the arithmetic the code writes down,
  not about its rounding. A \<^verbatim>\<open>std::string\<close> is a \<^typ>\<open>string\<close>, a
  \<^verbatim>\<open>std::vector<double>\<close> and an \<^verbatim>\<open>Eigen::VectorXd\<close> are lists of reals, an
  \<^verbatim>\<open>Eigen::MatrixXd\<close> is the list of its rows. A \<^verbatim>\<open>size_t\<close> is a natural
  number below \<open>2 ^ 64\<close>, with the wrap-around written out where the code subtracts.
  The loop counters are \<^verbatim>\<open>int\<close>s that run from 0 to the size of a vector; they are
  natural numbers here.
\<close>

subsection \<open>Ways a cycle can end without a reply\<close>

datatype failure =
    AssertionFailure      \<comment> \<open>an \<^verbatim>\<open>assert\<close> fails: \<^verbatim>\<open>abort()\<close> ends the process\<close>
  | UndefinedBehaviour    \<comment> \<open>a \<^verbatim>\<open>std::vector\<close> is read past its end\<close>
  | UncaughtException     \<comment> \<open>the JSON library or \<^verbatim>\<open>substr\<close> throws, nothing catches\<close>

subsection \<open>String search (\<^verbatim>\<open>std::string::find\<close>, \<^verbatim>\<open>find_first_of\<close>, \<^verbatim>\<open>rfind\<close>, \<^verbatim>\<open>substr\<close>)\<close>

definition npos :: nat where
  "npos = 2 ^ 64 - 1"

definition occurs_at :: "string \<Rightarrow> string \<Rightarrow> nat \<Rightarrow> bool" where
  "occurs_at pat s i \<longleftrightarrow> i + length pat \<le> length s \<and> take (length pat) (drop i s) = pat"

fun find_sub :: "string \<Rightarrow> string \<Rightarrow> nat option" where
  "find_sub pat [] = (if pat = [] then Some 0 else None)"
| "find_sub pat (c # cs) =
     (if take (length pat) (c # cs) = pat then Some 0
      else map_option Suc (find_sub pat cs))"

fun rfind_sub :: "string \<Rightarrow> string \<Rightarrow> nat option" where
  "rfind_sub pat [] = (if pat = [] then Some 0 else None)"
| "rfind_sub pat (c # cs) =
     (case rfind_sub pat cs of
        Some i \<Rightarrow> Some (Suc i)
      | None \<Rightarrow> if take (length pat) (c # cs) = pat then Some 0 else None)"

fun first_of :: "string \<Rightarrow> string \<Rightarrow> nat option" where
  "first_of chars [] = None"
| "first_of chars (c # cs) =
     (if c \<in> set chars then Some 0 else map_option Suc (first_of chars cs))"

definition as_size_t :: "nat option \<Rightarrow> nat" where
  "as_size_t r = (case r of None \<Rightarrow> npos | Some i \<Rightarrow> i)"

definition find_str :: "string \<Rightarrow> string \<Rightarrow> nat" where
  "find_str s pat = as_size_t (find_sub pat s)"

definition find_first_of :: "string \<Rightarrow> string \<Rightarrow> nat" where
  "find_first_of s chars = as_size_t (first_of chars s)"

definition rfind :: "string \<Rightarrow> string \<Rightarrow> nat" where
  "rfind s pat = as_size_t (rfind_sub pat s)"

text \<open>
  \<^verbatim>\<open>s.substr(pos, count)\<close> throws when \<open>pos\<close> is beyond the end of \<open>s\<close>; otherwise
  it is the \<open>count\<close> characters from \<open>pos\<close>, or as many as are left.
\<close>

definition substr :: "string \<Rightarrow> nat \<Rightarrow> nat \<Rightarrow> failure + string" where
  "substr s pos count =
     (if length s < pos then Inl UncaughtException else Inr (take count (drop pos s)))"

subsection \<open>\<^verbatim>\<open>hasData\<close>\<close>

text \<open>
  \<^verbatim>\<open>b2 - b1 + 2\<close> is computed in \<^verbatim>\<open>size_t\<close>: it wraps modulo \<open>2 ^ 64\<close> when the last
  \<^verbatim>\<open>}]\<close> lies before the first \<^verbatim>\<open>[\<close>.
\<close>

definition hasData :: "string \<Rightarrow> failure + string" where
  "hasData s =
     (let found_null = find_str s ''null'';
          b1 = find_first_of s ''['';
          b2 = rfind s ''}]''
      in if found_null \<noteq> npos then Inr ''''
         else if b1 \<noteq> npos \<and> b2 \<noteq> npos then substr s b1 ((b2 + 2 ^ 64 - b1 + 2) mod 2 ^ 64)
         else Inr '''')"

subsection \<open>\<^verbatim>\<open>polyeval\<close>\<close>

text \<open>
  The loop \<^verbatim>\<open>for (int i = 0; i < coeffs.size(); i++) result += coeffs[i] * pow(x, i)\<close>,
  with the loop counter and the accumulator as arguments. \<^verbatim>\<open>pow(x, 0)\<close> is 1 for every
  \<open>x\<close>, also for \<open>x = 0\<close>, as \<open>x ^ 0\<close> is.
\<close>

function polyeval_loop :: "real list \<Rightarrow> real \<Rightarrow> nat \<Rightarrow> real \<Rightarrow> real" where
  "polyeval_loop coeffs x i result =
     (if i < length coeffs then polyeval_loop coeffs x (Suc i) (result + coeffs ! i * x ^ i)
      else result)"
  by pat_completeness auto
termination
  by (relation "measure (\<lambda>(coeffs, x, i, result). length coeffs - i)") auto

declare polyeval_loop.simps [simp del]

definition polyeval :: "real list \<Rightarrow> real \<Rightarrow> real" where
  "polyeval coeffs x = polyeval_loop coeffs x 0 0.0"

subsection \<open>\<^verbatim>\<open>deg2rad\<close>\<close>

definition deg2rad :: "real \<Rightarrow> real" where
  "deg2rad x = x * pi / 180"

subsection \<open>The waypoint transform loop\<close>

text \<open>
  \<^verbatim>\<open>ptsx_car\<close> is created with \<^verbatim>\<open>ptsx.size()\<close> entries and \<^verbatim>\<open>ptsy_car\<close> with
  \<^verbatim>\<open>ptsy.size()\<close> entries (uninitialised in Eigen, zero here; the loop overwrites each).
  The loop runs over the indices of \<^verbatim>\<open>ptsx\<close>; reading \<^verbatim>\<open>ptsy[i]\<close> past the end of a
  shorter \<^verbatim>\<open>ptsy\<close> is undefined behaviour. Both writes are then in range.
\<close>

function transform_loop ::
  "real list \<Rightarrow> real list \<Rightarrow> real \<Rightarrow> real \<Rightarrow> real \<Rightarrow> nat \<Rightarrow> real list \<Rightarrow> real list
     \<Rightarrow> failure + (real list \<times> real list)" where
  "transform_loop ptsx ptsy px py psi i ptsx_car ptsy_car =
     (if i < length ptsx then
        (if length ptsy \<le> i then Inl UndefinedBehaviour
         else
           let dx_global = ptsx ! i - px;
               dy_global = ptsy ! i - py
           in transform_loop ptsx ptsy px py psi (Suc i)
                (ptsx_car[i := cos psi * dx_global + sin psi * dy_global])
                (ptsy_car[i := - sin psi * dx_global + cos psi * dy_global]))
      else Inr (ptsx_car, ptsy_car))"
  by pat_completeness auto
termination
  by (relation "measure (\<lambda>(ptsx, ptsy, px, py, psi, i, xc, yc). length ptsx - i)") auto

declare transform_loop.simps [simp del]

definition transform_waypoints ::
  "real list \<Rightarrow> real list \<Rightarrow> real \<Rightarrow> real \<Rightarrow> real \<Rightarrow> failure + (real list \<times> real list)" where
  "transform_waypoints ptsx ptsy px py psi =
     transform_loop ptsx ptsy px py psi 0
       (replicate (length ptsx) 0) (replicate (length ptsy) 0)"

subsection \<open>\<^verbatim>\<open>polyfit\<close>\<close>

type_synonym matrix = "real list list"

definition mat_get :: "matrix \<Rightarrow> nat \<Rightarrow> nat \<Rightarrow> real" where
  "mat_get A r c = A ! r ! c"

definition mat_set :: "matrix \<Rightarrow> nat \<Rightarrow> nat \<Rightarrow> real \<Rightarrow> matrix" where
  "mat_set A r c v = A[r := (A ! r)[c := v]]"

text \<open>
  The two loops that fill \<^verbatim>\<open>A\<close>: column 0 is set to 1, then each row is extended by
  \<^verbatim>\<open>A(j, i + 1) = A(j, i) * xvals(j)\<close>. Every index is inside the
  \<open>xvals.size() \<times> (order + 1)\<close> matrix.
\<close>

definition fill_ones :: "nat \<Rightarrow> matrix \<Rightarrow> matrix" where
  "fill_ones n A = fold (\<lambda>i A. mat_set A i 0 1.0) [0..<n] A"

definition fill_powers :: "real list \<Rightarrow> nat \<Rightarrow> matrix \<Rightarrow> matrix" where
  "fill_powers xvals order A =
     fold (\<lambda>j A. fold (\<lambda>i A. mat_set A j (i + 1) (mat_get A j i * xvals ! j)) [0..<order] A)
       [0..<length xvals] A"

definition design_matrix :: "real list \<Rightarrow> int \<Rightarrow> matrix" where
  "design_matrix xvals order =
     fill_powers xvals (nat order)
       (fill_ones (length xvals) (replicate (length xvals) (replicate (nat (order + 1)) 0)))"

text \<open>
  \<^verbatim>\<open>A.householderQr().solve(yvals)\<close> is Eigen's, not this program's: it is the
  parameter \<open>qr_solve\<close>. Both \<^verbatim>\<open>assert\<close>s are on: a failed one aborts the process.
  \<^verbatim>\<open>xvals.size()\<close> is a signed \<^verbatim>\<open>Eigen::Index\<close>, so \<^verbatim>\<open>xvals.size() - 1\<close> is \<open>-1\<close>
  for an empty vector.
\<close>

definition polyfit ::
  "(matrix \<Rightarrow> real list \<Rightarrow> real list) \<Rightarrow> real list \<Rightarrow> real list \<Rightarrow> int \<Rightarrow> failure + real list" where
  "polyfit qr_solve xvals yvals order =
     (if \<not> (length xvals = length yvals) then Inl AssertionFailure
      else if \<not> (order \<ge> 1 \<and> order \<le> int (length xvals) - 1) then Inl AssertionFailure
      else Inr (qr_solve (design_matrix xvals order) yvals))"

subsection \<open>What is assumed of the linear solve\<close>

text \<open>
  Eigen's Householder QR solve is outside the sources. Section 4.2 of the specification
  describes the step as solving the least-squares polynomial fit, so a statement that
  depends on the value returned by \<open>qr_solve\<close> assumes this of it: the result has one
  entry per column, and no vector of that length has a smaller sum of squared residuals.
\<close>

definition dot :: "real list \<Rightarrow> real list \<Rightarrow> real" where
  "dot u v = sum_list (map2 (*) u v)"

definition residual :: "matrix \<Rightarrow> real list \<Rightarrow> real list \<Rightarrow> real" where
  "residual A b x = sum_list (map2 (\<lambda>row bj. (dot row x - bj)\<^sup>2) A b)"

definition least_squares_solution :: "matrix \<Rightarrow> real list \<Rightarrow> real list \<Rightarrow> bool" where
  "least_squares_solution A b x \<longleftrightarrow>
     (\<forall>z. length z = length x \<longrightarrow> residual A b x \<le> residual A b z)"

subsection \<open>The telemetry branch of the message handler\<close>

record telemetry =
  t_ptsx :: "real list"
  t_ptsy :: "real list"
  t_x :: real
  t_y :: real
  t_psi :: real
  t_speed :: real

record command =
  steering_angle :: real
  throttle :: real
  mpc_x :: "real list"
  mpc_y :: "real list"
  next_x :: "real list"
  next_y :: "real list"

text \<open>
  What one run of the branch leaves behind: the reply it sends or the failure that ends
  it, and the arguments of every call of \<^verbatim>\<open>mpc.Solve\<close> it made.
\<close>

record 'a cycle =
  outcome :: "failure + 'a"
  solver_calls :: "(real list \<times> real list) list"

definition mpc_points :: "real list \<Rightarrow> real list \<times> real list" where
  "mpc_points solutions =
     fold (\<lambda>i (mpc_x_vals, mpc_y_vals).
             if i mod 2 = 0 then (mpc_x_vals @ [solutions ! i], mpc_y_vals)
             else (mpc_x_vals, mpc_y_vals @ [solutions ! i]))
       [2..<length solutions] ([], [])"

definition next_points :: "real list \<Rightarrow> real list \<Rightarrow> real list \<times> real list" where
  "next_points ptsx_car ptsy_car =
     fold (\<lambda>i (next_x_vals, next_y_vals).
             (next_x_vals @ [ptsx_car ! i], next_y_vals @ [ptsy_car ! i]))
       [0..<length ptsx_car] ([], [])"

text \<open>
  Steps 4 to 6: \<^verbatim>\<open>steer_value = -solutions[0]\<close>, \<^verbatim>\<open>throttle_value = solutions[1]\<close>, and
  the message fields. \<^verbatim>\<open>msgJson["steering_angle"]\<close> is \<^verbatim>\<open>steer_value\<close> as it is.
  \<^verbatim>\<open>next_points\<close> reads both vectors over the indices of \<^verbatim>\<open>ptsx_car\<close>; they have the
  same size here, since \<^verbatim>\<open>polyfit\<close> asserted it.
\<close>

definition send_controls :: "real list \<Rightarrow> real list \<Rightarrow> real list \<Rightarrow> failure + command" where
  "send_controls solutions ptsx_car ptsy_car =
     (if length solutions < 2 then Inl UndefinedBehaviour
      else
        let steer_value = - (solutions ! 0);
            throttle_value = solutions ! 1
        in Inr \<lparr> steering_angle = steer_value,
                 throttle = throttle_value,
                 mpc_x = fst (mpc_points solutions),
                 mpc_y = snd (mpc_points solutions),
                 next_x = fst (next_points ptsx_car ptsy_car),
                 next_y = snd (next_points ptsx_car ptsy_car) \<rparr>)"

text \<open>
  \<^verbatim>\<open>mpc.Solve\<close> is defined in \<^verbatim>\<open>MPC.cpp\<close>; here it is the parameter \<open>mpc_solve\<close>.
  \<^verbatim>\<open>coeffs[1]\<close> is an Eigen access, which asserts that the index is in range.
\<close>

definition telemetry_branch ::
  "(matrix \<Rightarrow> real list \<Rightarrow> real list) \<Rightarrow> (real list \<Rightarrow> real list \<Rightarrow> real list)
     \<Rightarrow> telemetry \<Rightarrow> command cycle" where
  "telemetry_branch qr_solve mpc_solve t =
     (case transform_waypoints (t_ptsx t) (t_ptsy t) (t_x t) (t_y t) (t_psi t) of
        Inl e \<Rightarrow> \<lparr> outcome = Inl e, solver_calls = [] \<rparr>
      | Inr (ptsx_car, ptsy_car) \<Rightarrow>
          (case polyfit qr_solve ptsx_car ptsy_car 3 of
             Inl e \<Rightarrow> \<lparr> outcome = Inl e, solver_calls = [] \<rparr>
           | Inr coeffs \<Rightarrow>
               let cte = polyeval coeffs 0.0 - 0.0 in
               if \<not> 1 < length coeffs then \<lparr> outcome = Inl AssertionFailure, solver_calls = [] \<rparr>
               else
                 let epsi = 0.0 - arctan (coeffs ! 1);
                     px_initial = 0.0;
                     py_initial = 0.0;
                     psi_initial = 0.0;
                     state = [px_initial, py_initial, psi_initial, t_speed t, cte, epsi];
                     solutions = mpc_solve state coeffs
                 in \<lparr> outcome = send_controls solutions ptsx_car ptsy_car,
                      solver_calls = [(state, coeffs)] \<rparr>))"

subsection \<open>The message handler\<close>

datatype reply = Steer command | Manual

text \<open>
  The JSON library is a parameter: \<open>json_event\<close> reads \<^verbatim>\<open>j[0]\<close> as a string and
  \<open>json_telemetry\<close> reads the six fields of \<^verbatim>\<open>j[1]\<close>; \<open>None\<close> is a thrown exception.
  A message that is no event, or an event other than \<^verbatim>\<open>telemetry\<close>, gets no reply.
\<close>

definition onMessage ::
  "(string \<Rightarrow> string option) \<Rightarrow> (string \<Rightarrow> telemetry option)
     \<Rightarrow> (matrix \<Rightarrow> real list \<Rightarrow> real list) \<Rightarrow> (real list \<Rightarrow> real list \<Rightarrow> real list)
     \<Rightarrow> string \<Rightarrow> reply option cycle" where
  "onMessage json_event json_telemetry qr_solve mpc_solve sdata =
     (if length sdata > 2 \<and> sdata ! 0 = CHR ''4'' \<and> sdata ! 1 = CHR ''2'' then
        (case hasData sdata of
           Inl e \<Rightarrow> \<lparr> outcome = Inl e, solver_calls = [] \<rparr>
         | Inr s \<Rightarrow>
             if s \<noteq> '''' then
               (case json_event s of
                  None \<Rightarrow> \<lparr> outcome = Inl UncaughtException, solver_calls = [] \<rparr>
                | Some event \<Rightarrow>
                    if event = ''telemetry'' then
                      (case json_telemetry s of
                         None \<Rightarrow> \<lparr> outcome = Inl UncaughtException, solver_calls = [] \<rparr>
                       | Some t \<Rightarrow>
                           let c = telemetry_branch qr_solve mpc_solve t
                           in \<lparr> outcome = map_sum id (\<lambda>cmd. Some (Steer cmd)) (outcome c),
                                solver_calls = solver_calls c \<rparr>)
                    else \<lparr> outcome = Inr None, solver_calls = [] \<rparr>)
             else \<lparr> outcome = Inr (Some Manual), solver_calls = [] \<rparr>)
      else \<lparr> outcome = Inr None, solver_calls = [] \<rparr>)"

subsection \<open>The dynamics model\<close>

text \<open>
  Modelled from the spec: the dynamics model that \<^verbatim>\<open>mpc.Solve\<close> constrains its
  trajectory with is in \<^verbatim>\<open>MPC.cpp\<close>, which is not among the sources. This is one step
  of the model as section 4.4 of the specification gives it, with the wheelbase constant
  \<open>Lf\<close>, the step duration \<open>dt\<close>, the path polynomial \<open>f\<close> and the desired heading
  \<open>psi_des\<close> as parameters.
\<close>

record horizon_state =
  st_x :: real
  st_y :: real
  st_psi :: real
  st_v :: real
  st_cte :: real
  st_epsi :: real

definition dynamics_step ::
  "real \<Rightarrow> real \<Rightarrow> (real \<Rightarrow> real) \<Rightarrow> (real \<Rightarrow> real) \<Rightarrow> horizon_state \<Rightarrow> real \<Rightarrow> real
     \<Rightarrow> horizon_state" where
  "dynamics_step Lf dt f psi_des s delta a =
     \<lparr> st_x = st_x s + st_v s * cos (st_psi s) * dt,
       st_y = st_y s + st_v s * sin (st_psi s) * dt,
       st_psi = st_psi s + (st_v s / Lf) * delta * dt,
       st_v = st_v s + a * dt,
       st_cte = (f (st_x s) - st_y s) + st_v s * sin (st_epsi s) * dt,
       st_epsi = (st_psi s - psi_des (st_x s)) + (st_v s / Lf) * delta * dt \<rparr>"

subsection \<open>Concrete inputs\<close>

text \<open>
  Four waypoints on the parabola \<open>y = x\<^sup>2\<close> seen from a vehicle at the origin with
  heading 0, the exact fit of these points, an optimizer answer with first steering value
  0.1 rad, and a record with only two waypoints. Then four waypoints on the line
  \<open>y = 2 + x\<close> of the frame of a vehicle at \<open>(1, 1)\<close> with heading 0, and the exact
  fit of these points.
\<close>

definition example_telemetry :: telemetry where
  "example_telemetry =
     \<lparr> t_ptsx = [0, 1, 2, 3], t_ptsy = [0, 1, 4, 9], t_x = 0, t_y = 0, t_psi = 0, t_speed = 5 \<rparr>"

definition example_qr_solve :: "matrix \<Rightarrow> real list \<Rightarrow> real list" where
  "example_qr_solve A b = [0, 0, 1, 0]"

definition example_mpc_solve :: "real list \<Rightarrow> real list \<Rightarrow> real list" where
  "example_mpc_solve state coeffs = [0.1, 0.5, 1, 0.02, 2, 0.08]"

definition short_telemetry :: telemetry where
  "short_telemetry =
     \<lparr> t_ptsx = [0, 10], t_ptsy = [0, 0], t_x = 0, t_y = 0, t_psi = 0, t_speed = 5 \<rparr>"

definition offset_telemetry :: telemetry where
  "offset_telemetry =
     \<lparr> t_ptsx = [1, 2, 3, 4], t_ptsy = [3, 4, 5, 6], t_x = 1, t_y = 1, t_psi = 0, t_speed = 5 \<rparr>"

definition offset_qr_solve :: "matrix \<Rightarrow> real list \<Rightarrow> real list" where
  "offset_qr_solve A b = [2, 1, 0, 0]"

definition example_path :: "real \<Rightarrow> real" where
  "example_path = polyeval [0, 0, 1, 0]"

definition example_state :: horizon_state where
  "example_state = \<lparr> st_x = 0, st_y = 0, st_psi = 0, st_v = 5, st_cte = 0, st_epsi = 0 \<rparr>"

section \<open>Properties\<close>

subsection \<open>Polynomial evaluation\<close>

lemma polyeval_loop_sum:
  "i \<le> length coeffs \<Longrightarrow>
   polyeval_loop coeffs x i result = result + (\<Sum>k = i..<length coeffs. coeffs ! k * x ^ k)"
proof (induction coeffs x i result rule: polyeval_loop.induct)
  case (1 coeffs x i result)
  show ?case
  proof (cases "i < length coeffs")
    case True
    then have "polyeval_loop coeffs x i result =
        polyeval_loop coeffs x (Suc i) (result + coeffs ! i * x ^ i)"
      by (subst polyeval_loop.simps) simp
    also have "\<dots> = result + coeffs ! i * x ^ i + (\<Sum>k = Suc i..<length coeffs. coeffs ! k * x ^ k)"
      using True "1.IH" by simp
    also have "\<dots> = result + (\<Sum>k = i..<length coeffs. coeffs ! k * x ^ k)"
      using True by (simp add: sum.atLeast_Suc_lessThan)
    finally show ?thesis .
  next
    case False
    then show ?thesis
      by (subst polyeval_loop.simps) simp
  qed
qed

text \<open>
  C8. For every coefficient vector \<open>c\<close> of length \<open>n\<close> and every real \<open>x\<close>,
  \<^verbatim>\<open>polyeval\<close> returns the sum over \<open>i < n\<close> of \<open>c\<^sub>i \<cdot> x\<^sup>i\<close>.
\<close>

theorem polyeval_is_power_sum:
  "polyeval c x = (\<Sum>i<length c. c ! i * x ^ i)"
  by (simp add: polyeval_def polyeval_loop_sum lessThan_atLeast0)

lemma polyeval_cubic:
  "polyeval [c0, c1, c2, c3] x = c0 + c1 * x + c2 * x\<^sup>2 + c3 * x ^ 3"
  by (simp add: polyeval_def polyeval_loop_sum eval_nat_numeral)

text \<open>
  At 0 only the constant term is left.
\<close>

lemma power_sum_at_zero:
  fixes c :: "real list"
  assumes "0 < length c"
  shows "(\<Sum>i<length c. c ! i * 0 ^ i) = c ! 0"
proof -
  have "(\<Sum>i<length c. c ! i * 0 ^ i) = (\<Sum>i<length c. if i = 0 then c ! 0 else 0)"
    by (rule sum.cong) (auto simp: power_0_left)
  also have "\<dots> = c ! 0"
    using assms by (simp add: sum.delta)
  finally show ?thesis .
qed

lemma polyeval_at_zero:
  assumes "0 < length coeffs"
  shows "polyeval coeffs 0 = coeffs ! 0"
  using power_sum_at_zero [OF assms]
  by (simp add: polyeval_def polyeval_loop_sum lessThan_atLeast0)

subsection \<open>String search and \<^verbatim>\<open>hasData\<close>\<close>

text \<open>
  The three searches against their meaning: \<open>find_sub\<close> returns the first position at
  which the pattern occurs, \<open>rfind_sub\<close> the last one, \<open>first_of\<close> the first position
  of a character of the set; each returns \<open>None\<close> exactly when there is no such position.
\<close>

lemma occurs_at_Cons_0:
  "occurs_at pat (c # cs) 0 \<longleftrightarrow> take (length pat) (c # cs) = pat"
proof
  assume "take (length pat) (c # cs) = pat"
  then have "length (take (length pat) (c # cs)) = length pat" by simp
  then have "length pat \<le> length (c # cs)" by (simp del: take_Suc_Cons)
  with \<open>take (length pat) (c # cs) = pat\<close> show "occurs_at pat (c # cs) 0"
    by (simp add: occurs_at_def)
qed (simp add: occurs_at_def)

lemma occurs_at_Cons_Suc: "occurs_at pat (c # cs) (Suc i) \<longleftrightarrow> occurs_at pat cs i"
  by (simp add: occurs_at_def)

lemma occurs_at_Nil: "occurs_at pat [] i \<longleftrightarrow> pat = [] \<and> i = 0"
  by (auto simp: occurs_at_def)

lemma find_sub_None_iff: "find_sub pat s = None \<longleftrightarrow> (\<forall>i. \<not> occurs_at pat s i)"
proof (induction s)
  case Nil
  show ?case by (auto simp: occurs_at_Nil)
next
  case (Cons c cs)
  show ?case
  proof
    assume "find_sub pat (c # cs) = None"
    then have h: "take (length pat) (c # cs) \<noteq> pat" "find_sub pat cs = None"
      by (auto split: if_splits)
    show "\<forall>i. \<not> occurs_at pat (c # cs) i"
    proof
      fix i show "\<not> occurs_at pat (c # cs) i"
        using h Cons.IH by (cases i) (simp_all add: occurs_at_Cons_0 occurs_at_Cons_Suc)
    qed
  next
    assume a: "\<forall>i. \<not> occurs_at pat (c # cs) i"
    then have "\<not> occurs_at pat (c # cs) 0" by blast
    moreover have "\<forall>i. \<not> occurs_at pat cs i"
      using a occurs_at_Cons_Suc by blast
    ultimately show "find_sub pat (c # cs) = None"
      using Cons.IH by (simp add: occurs_at_Cons_0)
  qed
qed

lemma find_sub_Some:
  "find_sub pat s = Some i \<Longrightarrow> occurs_at pat s i \<and> (\<forall>k<i. \<not> occurs_at pat s k)"
proof (induction s arbitrary: i)
  case Nil
  then show ?case by (auto simp: occurs_at_Nil split: if_splits)
next
  case (Cons c cs)
  show ?case
  proof (cases "take (length pat) (c # cs) = pat")
    case True
    with Cons.prems have "i = 0" by simp
    with True show ?thesis by (simp add: occurs_at_Cons_0)
  next
    case False
    with Cons.prems obtain i' where i': "find_sub pat cs = Some i'" "i = Suc i'"
      by auto
    from Cons.IH [OF i'(1)] have ih: "occurs_at pat cs i'" "\<forall>k<i'. \<not> occurs_at pat cs k"
      by auto
    have "\<not> occurs_at pat (c # cs) k" if "k < i" for k
      using that False ih i' by (cases k) (simp_all add: occurs_at_Cons_0 occurs_at_Cons_Suc)
    with ih i' show ?thesis by (simp add: occurs_at_Cons_Suc)
  qed
qed

lemma rfind_sub_None_iff: "rfind_sub pat s = None \<longleftrightarrow> (\<forall>i. \<not> occurs_at pat s i)"
proof (induction s)
  case Nil
  show ?case by (auto simp: occurs_at_Nil)
next
  case (Cons c cs)
  show ?case
  proof
    assume "rfind_sub pat (c # cs) = None"
    then have h: "take (length pat) (c # cs) \<noteq> pat" "rfind_sub pat cs = None"
      by (auto split: if_splits option.splits)
    show "\<forall>i. \<not> occurs_at pat (c # cs) i"
    proof
      fix i show "\<not> occurs_at pat (c # cs) i"
        using h Cons.IH by (cases i) (simp_all add: occurs_at_Cons_0 occurs_at_Cons_Suc)
    qed
  next
    assume a: "\<forall>i. \<not> occurs_at pat (c # cs) i"
    then have "\<not> occurs_at pat (c # cs) 0" by blast
    moreover have "\<forall>i. \<not> occurs_at pat cs i"
      using a occurs_at_Cons_Suc by blast
    ultimately show "rfind_sub pat (c # cs) = None"
      using Cons.IH by (simp add: occurs_at_Cons_0)
  qed
qed

lemma rfind_sub_Some:
  "rfind_sub pat s = Some i \<Longrightarrow> occurs_at pat s i \<and> (\<forall>k>i. \<not> occurs_at pat s k)"
proof (induction s arbitrary: i)
  case Nil
  then show ?case by (auto simp: occurs_at_Nil split: if_splits)
next
  case (Cons c cs)
  show ?case
  proof (cases "rfind_sub pat cs")
    case None
    with Cons.prems have i: "i = 0" "take (length pat) (c # cs) = pat"
      by (auto split: if_splits)
    from None have no: "\<forall>k. \<not> occurs_at pat cs k"
      by (simp add: rfind_sub_None_iff)
    have "\<not> occurs_at pat (c # cs) k" if "k > i" for k
      using that no by (cases k) (simp_all add: occurs_at_Cons_Suc)
    with i show ?thesis by (simp add: occurs_at_Cons_0)
  next
    case (Some i')
    with Cons.prems have i: "i = Suc i'" by simp
    from Cons.IH [OF Some] have ih: "occurs_at pat cs i'" "\<forall>k>i'. \<not> occurs_at pat cs k"
      by auto
    have "\<not> occurs_at pat (c # cs) k" if "k > i" for k
      using that ih i by (cases k) (simp_all add: occurs_at_Cons_Suc)
    with ih i show ?thesis by (simp add: occurs_at_Cons_Suc)
  qed
qed

lemma first_of_None_iff: "first_of chars s = None \<longleftrightarrow> (\<forall>c\<in>set s. c \<notin> set chars)"
  by (induction s) auto

lemma first_of_Some:
  "first_of chars s = Some i \<Longrightarrow> i < length s \<and> s ! i \<in> set chars \<and> (\<forall>k<i. s ! k \<notin> set chars)"
proof (induction s arbitrary: i)
  case Nil
  then show ?case by simp
next
  case (Cons c cs)
  show ?case
  proof (cases "c \<in> set chars")
    case True
    with Cons.prems show ?thesis by simp
  next
    case False
    with Cons.prems obtain i' where i': "first_of chars cs = Some i'" "i = Suc i'"
      by auto
    from Cons.IH [OF i'(1)] have ih: "i' < length cs" "cs ! i' \<in> set chars"
      "\<forall>k<i'. cs ! k \<notin> set chars" by auto
    have "(c # cs) ! k \<notin> set chars" if "k < i" for k
      using that False ih i' by (cases k) simp_all
    with ih i' show ?thesis by simp
  qed
qed

lemma rfind_sub_eqI:
  assumes "occurs_at pat s i" "\<forall>k>i. \<not> occurs_at pat s k"
  shows "rfind_sub pat s = Some i"
proof (cases "rfind_sub pat s")
  case None
  with assms show ?thesis by (simp add: rfind_sub_None_iff)
next
  case (Some i')
  from rfind_sub_Some [OF Some] assms have "\<not> i' < i" "\<not> i < i'" by auto
  with Some show ?thesis by simp
qed

lemma first_of_eqI:
  assumes "i < length s" "s ! i \<in> set chars" "\<forall>k<i. s ! k \<notin> set chars"
  shows "first_of chars s = Some i"
proof (cases "first_of chars s")
  case None
  with assms show ?thesis by (auto simp: first_of_None_iff)
next
  case (Some i')
  from first_of_Some [OF Some] assms have "\<not> i' < i" "\<not> i < i'" by auto
  with Some show ?thesis by simp
qed

lemma occurs_at_bound: "occurs_at pat s i \<Longrightarrow> i \<le> length s"
  by (simp add: occurs_at_def)

lemma size_t_count:
  fixes i j N :: nat
  assumes "i < j" "j + 2 - i < N"
  shows "(j + N - i + 2) mod N = j + 2 - i"
proof -
  define d where "d = j + 2 - i"
  have "j + N - i + 2 = d + N"
    using assms by (simp add: d_def)
  then have "(j + N - i + 2) mod N = d mod N"
    by simp
  also have "\<dots> = d"
    using assms by (simp add: d_def)
  finally show ?thesis
    by (simp add: d_def)
qed

text \<open>
  The call of \<^verbatim>\<open>substr\<close> never throws: \<^verbatim>\<open>b1\<close> is a position inside the string.
\<close>

lemma hasData_returns: "\<exists>r. hasData s = Inr r"
proof (cases "first_of ''['' s")
  case None
  then show ?thesis
    by (simp add: hasData_def find_first_of_def as_size_t_def Let_def)
next
  case (Some i)
  from first_of_Some [OF Some] have "i < length s" by simp
  with Some show ?thesis
    by (simp add: hasData_def find_first_of_def as_size_t_def substr_def Let_def)
qed

text \<open>
  C9. For every input string that contains the substring \<^verbatim>\<open>null\<close> anywhere,
  \<^verbatim>\<open>hasData\<close> returns the empty string, whatever else the string contains. Otherwise,
  when the string has a \<^verbatim>\<open>[\<close> and a closing \<^verbatim>\<open>}]\<close> (its last \<^verbatim>\<open>}]\<close> starts
  after its first \<^verbatim>\<open>[\<close>), \<^verbatim>\<open>hasData\<close> returns the substring from the first
  \<^verbatim>\<open>[\<close> through that \<^verbatim>\<open>}]\<close> inclusive. Here \<open>i\<close> is the position of the first
  \<^verbatim>\<open>[\<close> and \<open>j\<close> the position of the last \<^verbatim>\<open>}]\<close>; a \<^verbatim>\<open>std::string\<close> is shorter
  than \<^verbatim>\<open>npos\<close>.
\<close>

theorem hasData_null_or_payload:
  assumes len: "length s < 2 ^ 64 - 1"
  shows "((\<exists>k. occurs_at ''null'' s k) \<longrightarrow> hasData s = Inr '''')
       \<and> (\<not> (\<exists>k. occurs_at ''null'' s k)
            \<and> i < length s \<and> s ! i = CHR ''['' \<and> (\<forall>k<i. s ! k \<noteq> CHR ''['')
            \<and> occurs_at ''}]'' s j \<and> (\<forall>k>j. \<not> occurs_at ''}]'' s k)
            \<and> i < j
          \<longrightarrow> hasData s = Inr (take (j + 2 - i) (drop i s)))"
proof (intro conjI impI)
  assume "\<exists>k. occurs_at ''null'' s k"
  then obtain k where "find_sub ''null'' s = Some k"
    using find_sub_None_iff [of "''null''" s] by auto
  moreover from find_sub_Some [OF this] have "k \<le> length s"
    using occurs_at_bound by blast
  ultimately have "find_str s ''null'' \<noteq> npos"
    using len by (simp add: find_str_def as_size_t_def npos_def)
  then show "hasData s = Inr ''''"
    by (simp add: hasData_def)
next
  assume a: "\<not> (\<exists>k. occurs_at ''null'' s k)
            \<and> i < length s \<and> s ! i = CHR ''['' \<and> (\<forall>k<i. s ! k \<noteq> CHR ''['')
            \<and> occurs_at ''}]'' s j \<and> (\<forall>k>j. \<not> occurs_at ''}]'' s k)
            \<and> i < j"
  then have "find_sub ''null'' s = None"
    by (simp add: find_sub_None_iff)
  then have n: "find_str s ''null'' = npos"
    by (simp add: find_str_def as_size_t_def)
  from a have "first_of ''['' s = Some i"
    by (intro first_of_eqI) simp_all
  then have b1: "find_first_of s ''['' = i"
    by (simp add: find_first_of_def as_size_t_def)
  from a have "rfind_sub ''}]'' s = Some j"
    by (intro rfind_sub_eqI) simp_all
  then have b2: "rfind s ''}]'' = j"
    by (simp add: rfind_def as_size_t_def)
  from a have j: "j + 2 \<le> length s" by (simp add: occurs_at_def)
  from a have ij: "i < j" by simp
  have ne: "i \<noteq> npos" "j \<noteq> npos"
    using a j len by (simp_all add: npos_def)
  have "j + 2 - i < (2::nat) ^ 64"
    using j ij len by linarith
  with ij have cnt: "(j + 2 ^ 64 - i + 2) mod 2 ^ 64 = j + 2 - i"
    by (rule size_t_count)
  show "hasData s = Inr (take (j + 2 - i) (drop i s))"
    using n b1 b2 ne cnt a by (simp add: hasData_def substr_def)
qed

theorem hasData_null_or_payload_witness:
  "hasData ''42[null]'' = Inr '''' \<and> hasData ''42[{a}]'' = Inr ''[{a}]''"
proof -
  have l1: "length ''42[null]'' < 2 ^ 64 - 1" by simp
  have "occurs_at ''null'' ''42[null]'' 3"
    by (simp add: occurs_at_def)
  with hasData_null_or_payload [OF l1, of 0 0] have r1: "hasData ''42[null]'' = Inr ''''"
    by blast
  have l2: "length ''42[{a}]'' < 2 ^ 64 - 1" by simp
  have n: "\<not> (\<exists>k. occurs_at ''null'' ''42[{a}]'' k)"
    by (simp add: find_sub_None_iff [symmetric])
  have f: "2 < length ''42[{a}]''" "''42[{a}]'' ! 2 = CHR ''[''"
    "\<forall>k<2. ''42[{a}]'' ! k \<noteq> CHR ''[''"
    by (simp_all add: less_Suc_eq numeral_2_eq_2)
  have "rfind_sub ''}]'' ''42[{a}]'' = Some 5" by simp
  from rfind_sub_Some [OF this]
  have r: "occurs_at ''}]'' ''42[{a}]'' 5" "\<forall>k>5. \<not> occurs_at ''}]'' ''42[{a}]'' k"
    by simp_all
  from hasData_null_or_payload [OF l2, of 2 5] n f r
  have "hasData ''42[{a}]'' = Inr (take (5 + 2 - 2) (drop 2 ''42[{a}]''))"
    by simp
  with r1 show ?thesis by simp
qed

text \<open>
  When the last \<^verbatim>\<open>}]\<close> lies before the first \<^verbatim>\<open>[\<close>, nothing closes the bracket and
  the unsigned count wraps around: the result is the rest of the string from the
  \<^verbatim>\<open>[\<close> on.
\<close>

lemma hasData_reversed_delimiters: "hasData ''}]x['' = Inr ''[''"
  by (simp add: hasData_def find_str_def find_first_of_def rfind_def as_size_t_def npos_def substr_def)

subsection \<open>The waypoint transform\<close>

lemma transform_loop_inv:
  assumes "length ptsx \<le> length ptsy" "length xc = length ptsx" "length yc = length ptsy"
  shows "\<exists>xc' yc'. transform_loop ptsx ptsy px py psi i xc yc = Inr (xc', yc')
      \<and> length xc' = length ptsx \<and> length yc' = length ptsy
      \<and> (\<forall>k<length ptsx.
            xc' ! k = (if k < i then xc ! k
                       else cos psi * (ptsx ! k - px) + sin psi * (ptsy ! k - py))
          \<and> yc' ! k = (if k < i then yc ! k
                       else - sin psi * (ptsx ! k - px) + cos psi * (ptsy ! k - py)))"
  using assms
proof (induction ptsx ptsy px py psi i xc yc rule: transform_loop.induct)
  case (1 ptsx ptsy px py psi i xc yc)
  show ?case
  proof (cases "i < length ptsx")
    case False
    then show ?thesis
      using "1.prems" by (subst transform_loop.simps) simp
  next
    case True
    then have in_y: "\<not> length ptsy \<le> i"
      using "1.prems" by simp
    let ?xc = "xc[i := cos psi * (ptsx ! i - px) + sin psi * (ptsy ! i - py)]"
    let ?yc = "yc[i := - sin psi * (ptsx ! i - px) + cos psi * (ptsy ! i - py)]"
    have step: "transform_loop ptsx ptsy px py psi i xc yc =
        transform_loop ptsx ptsy px py psi (Suc i) ?xc ?yc"
      using True in_y by (subst transform_loop.simps) (simp add: Let_def)
    from "1.IH" [OF True in_y refl refl] "1.prems"
    obtain xc' yc' where
      r: "transform_loop ptsx ptsy px py psi (Suc i) ?xc ?yc = Inr (xc', yc')"
      and l: "length xc' = length ptsx" "length yc' = length ptsy"
      and n: "\<forall>k<length ptsx.
            xc' ! k = (if k < Suc i then ?xc ! k
                       else cos psi * (ptsx ! k - px) + sin psi * (ptsy ! k - py))
          \<and> yc' ! k = (if k < Suc i then ?yc ! k
                       else - sin psi * (ptsx ! k - px) + cos psi * (ptsy ! k - py))"
      by auto
    have "\<forall>k<length ptsx.
            xc' ! k = (if k < i then xc ! k
                       else cos psi * (ptsx ! k - px) + sin psi * (ptsy ! k - py))
          \<and> yc' ! k = (if k < i then yc ! k
                       else - sin psi * (ptsx ! k - px) + cos psi * (ptsy ! k - py))"
    proof (intro allI impI)
      fix k assume k: "k < length ptsx"
      show "xc' ! k = (if k < i then xc ! k
                       else cos psi * (ptsx ! k - px) + sin psi * (ptsy ! k - py))
          \<and> yc' ! k = (if k < i then yc ! k
                       else - sin psi * (ptsx ! k - px) + cos psi * (ptsy ! k - py))"
        using n k True "1.prems" by (cases "k = i") (auto simp: less_Suc_eq)
    qed
    with step r l show ?thesis by simp
  qed
qed

lemma transform_loop_short:
  assumes "length ptsy < length ptsx" "i \<le> length ptsy"
  shows "transform_loop ptsx ptsy px py psi i xc yc = Inl UndefinedBehaviour"
  using assms
proof (induction ptsx ptsy px py psi i xc yc rule: transform_loop.induct)
  case (1 ptsx ptsy px py psi i xc yc)
  show ?case
  proof (cases "i < length ptsy")
    case True
    then show ?thesis
      using "1.prems" "1.IH" by (subst transform_loop.simps) (simp add: Let_def)
  next
    case False
    then show ?thesis
      using "1.prems" by (subst transform_loop.simps) simp
  qed
qed

lemma transform_waypoints_zip:
  assumes "length ptsx = length ptsy"
  shows "transform_waypoints ptsx ptsy px py psi =
     Inr (map2 (\<lambda>gx gy. cos psi * (gx - px) + sin psi * (gy - py)) ptsx ptsy,
          map2 (\<lambda>gx gy. - sin psi * (gx - px) + cos psi * (gy - py)) ptsx ptsy)"
proof -
  from transform_loop_inv [of ptsx ptsy "replicate (length ptsx) 0" "replicate (length ptsy) 0" px py psi 0]
  obtain xc yc where
    r: "transform_waypoints ptsx ptsy px py psi = Inr (xc, yc)"
    and l: "length xc = length ptsx" "length yc = length ptsy"
    and n: "\<forall>k<length ptsx.
        xc ! k = cos psi * (ptsx ! k - px) + sin psi * (ptsy ! k - py)
      \<and> yc ! k = - sin psi * (ptsx ! k - px) + cos psi * (ptsy ! k - py)"
    using assms by (auto simp: transform_waypoints_def)
  have "xc = map2 (\<lambda>gx gy. cos psi * (gx - px) + sin psi * (gy - py)) ptsx ptsy"
    using l n assms by (intro nth_equalityI) simp_all
  moreover have "yc = map2 (\<lambda>gx gy. - sin psi * (gx - px) + cos psi * (gy - py)) ptsx ptsy"
    using l n assms by (intro nth_equalityI) simp_all
  ultimately show ?thesis
    using r by simp
qed

text \<open>
  C2. For every pose \<open>(px, py, psi)\<close> and every global waypoint \<open>(gx, gy)\<close> of the
  telemetry, the local-frame waypoint is \<open>lx = cos psi \<cdot> (gx - px) + sin psi \<cdot> (gy - py)\<close>
  and \<open>ly = - sin psi \<cdot> (gx - px) + cos psi \<cdot> (gy - py)\<close>, for every heading alike.
  The two waypoint sequences have the same length.
\<close>

theorem local_waypoint_formula:
  assumes "length ptsx = length ptsy"
  shows "transform_waypoints ptsx ptsy px py psi =
     Inr (map (\<lambda>i. cos psi * (ptsx ! i - px) + sin psi * (ptsy ! i - py)) [0..<length ptsx],
          map (\<lambda>i. - sin psi * (ptsx ! i - px) + cos psi * (ptsy ! i - py)) [0..<length ptsx])"
proof -
  have "map2 f ptsx ptsy = map (\<lambda>i. f (ptsx ! i) (ptsy ! i)) [0..<length ptsx]"
    for f :: "real \<Rightarrow> real \<Rightarrow> real"
    using assms by (intro nth_equalityI) simp_all
  then show ?thesis
    using assms by (simp add: transform_waypoints_zip)
qed

theorem local_waypoint_formula_witness:
  "length [1, 2 :: real] = length [3, 5 :: real]
   \<and> transform_waypoints [1, 2] [3, 5] 1 1 0 = Inr ([0, 1], [2, 4])"
  using local_waypoint_formula [of "[1, 2]" "[3, 5]" 1 1 0] by simp

text \<open>
  C10. For every pose and every global waypoint, the local-frame waypoint is as far from
  the origin as the global waypoint is from the vehicle:
  \<open>lx\<^sup>2 + ly\<^sup>2 = (gx - px)\<^sup>2 + (gy - py)\<^sup>2\<close>.
\<close>

theorem transform_preserves_distance:
  assumes "length ptsx = length ptsy"
  shows "\<exists>lx ly. transform_waypoints ptsx ptsy px py psi = Inr (lx, ly)
      \<and> (\<forall>i<length ptsx. (lx ! i)\<^sup>2 + (ly ! i)\<^sup>2 = (ptsx ! i - px)\<^sup>2 + (ptsy ! i - py)\<^sup>2)"
proof -
  have iso: "(cos psi * dx + sin psi * dy)\<^sup>2 + (- sin psi * dx + cos psi * dy)\<^sup>2 = dx\<^sup>2 + dy\<^sup>2"
    for dx dy :: real
  proof -
    have "(c * dx + s * dy)\<^sup>2 + (- s * dx + c * dy)\<^sup>2 = (s\<^sup>2 + c\<^sup>2) * (dx\<^sup>2 + dy\<^sup>2)"
      for s c :: real
      by (simp add: power2_eq_square algebra_simps)
    from this [of "cos psi" "sin psi"] show ?thesis by simp
  qed
  let ?lx = "map2 (\<lambda>gx gy. cos psi * (gx - px) + sin psi * (gy - py)) ptsx ptsy"
  let ?ly = "map2 (\<lambda>gx gy. - sin psi * (gx - px) + cos psi * (gy - py)) ptsx ptsy"
  have r: "transform_waypoints ptsx ptsy px py psi = Inr (?lx, ?ly)"
    using assms by (rule transform_waypoints_zip)
  have "(?lx ! i)\<^sup>2 + (?ly ! i)\<^sup>2 = (ptsx ! i - px)\<^sup>2 + (ptsy ! i - py)\<^sup>2"
    if "i < length ptsx" for i
  proof -
    have "?lx ! i = cos psi * (ptsx ! i - px) + sin psi * (ptsy ! i - py)"
      using that assms by simp
    moreover have "?ly ! i = - sin psi * (ptsx ! i - px) + cos psi * (ptsy ! i - py)"
      using that assms by simp
    ultimately show ?thesis
      by (simp only: iso)
  qed
  with r show ?thesis by blast
qed

theorem transform_preserves_distance_witness:
  "length [1, 2 :: real] = length [3, 5 :: real]
   \<and> (\<exists>lx ly. transform_waypoints [1, 2] [3, 5] 1 1 (pi / 2) = Inr (lx, ly)
        \<and> (lx ! 1)\<^sup>2 + (ly ! 1)\<^sup>2 = (2 - 1)\<^sup>2 + (5 - 1)\<^sup>2)"
proof -
  have h: "length [1, 2 :: real] = length [3, 5 :: real]" by simp
  from transform_preserves_distance [OF h, of 1 1 "pi / 2"]
  obtain lx ly where "transform_waypoints [1, 2] [3, 5] 1 1 (pi / 2) = Inr (lx, ly)"
    and "\<forall>i<length [1, 2 :: real].
           (lx ! i)\<^sup>2 + (ly ! i)\<^sup>2 = ([1, 2] ! i - 1)\<^sup>2 + ([3, 5] ! i - 1)\<^sup>2"
    by blast
  then have "transform_waypoints [1, 2] [3, 5] 1 1 (pi / 2) = Inr (lx, ly)
        \<and> (lx ! 1)\<^sup>2 + (ly ! 1)\<^sup>2 = (2 - 1)\<^sup>2 + (5 - 1)\<^sup>2"
    by simp
  with h show ?thesis by blast
qed

subsection \<open>The design matrix of \<^verbatim>\<open>polyfit\<close>\<close>

text \<open>
  The two loops build the Vandermonde matrix: row \<open>j\<close> holds the powers
  \<open>1, x\<^sub>j, x\<^sub>j\<^sup>2, \<dots>\<close> up to the order of the fit.
\<close>

lemma fill_ones_nth:
  "n \<le> length A \<Longrightarrow>
   length (fill_ones n A) = length A \<and>
   (\<forall>r<length A. fill_ones n A ! r = (if r < n then (A ! r)[0 := 1] else A ! r))"
proof (induction n)
  case 0
  show ?case by (simp add: fill_ones_def)
next
  case (Suc n)
  then have ih: "length (fill_ones n A) = length A"
    "\<forall>r<length A. fill_ones n A ! r = (if r < n then (A ! r)[0 := 1] else A ! r)"
    by simp_all
  have step: "fill_ones (Suc n) A = mat_set (fill_ones n A) n 0 1"
    by (simp add: fill_ones_def)
  show ?case
    using ih Suc.prems by (auto simp: step mat_set_def nth_list_update less_Suc_eq)
qed

lemma row_loop:
  "j < length A \<Longrightarrow>
   fold (\<lambda>i A. mat_set A j (i + 1) (mat_get A j i * x)) [0..<m] A =
   A[j := fold (\<lambda>i row. row[i + 1 := row ! i * x]) [0..<m] (A ! j)]"
  by (induction m) (simp_all add: mat_set_def mat_get_def)

lemma powers_loop:
  fixes x :: real
  shows "length row = Suc m \<Longrightarrow> row ! 0 = 1 \<Longrightarrow> k \<le> m \<Longrightarrow>
   length (fold (\<lambda>i row. row[i + 1 := row ! i * x]) [0..<k] row) = Suc m \<and>
   (\<forall>i\<le>k. fold (\<lambda>i row. row[i + 1 := row ! i * x]) [0..<k] row ! i = x ^ i)"
proof (induction k)
  case 0
  then show ?case by simp
next
  case (Suc k)
  let ?R = "fold (\<lambda>i row. row[i + 1 := row ! i * x]) [0..<k] row"
  from Suc have ih: "length ?R = Suc m" "\<forall>i\<le>k. ?R ! i = x ^ i"
    by simp_all
  have "?R[Suc k := ?R ! k * x] ! i = x ^ i" if "i \<le> Suc k" for i
  proof (cases "i = Suc k")
    case True
    then show ?thesis using ih Suc.prems by (simp add: power_commutes)
  next
    case False
    with that have "i \<le> k" by simp
    with ih False show ?thesis by simp
  qed
  with ih show ?case by simp
qed

lemma powers_row:
  fixes x :: real
  assumes "length row = Suc m" "row ! 0 = 1"
  shows "fold (\<lambda>i row. row[i + 1 := row ! i * x]) [0..<m] row = map (\<lambda>i. x ^ i) [0..<Suc m]"
proof (rule nth_equalityI)
  show "length (fold (\<lambda>i row. row[i + 1 := row ! i * x]) [0..<m] row) = length (map (\<lambda>i. x ^ i) [0..<Suc m])"
    using powers_loop [OF assms, of m x] by simp
next
  fix i assume "i < length (fold (\<lambda>i row. row[i + 1 := row ! i * x]) [0..<m] row)"
  then have "i \<le> m"
    using powers_loop [OF assms, of m x] by simp
  then show "fold (\<lambda>i row. row[i + 1 := row ! i * x]) [0..<m] row ! i = map (\<lambda>i. x ^ i) [0..<Suc m] ! i"
    using powers_loop [OF assms, of m x] by (simp add: nth_append less_Suc_eq_le del: upt_Suc)
qed

lemma rows_loop:
  assumes "\<forall>r<length A. length (A ! r) = Suc m \<and> A ! r ! 0 = 1"
  shows "n \<le> length A \<Longrightarrow>
    length (fold (\<lambda>j A. fold (\<lambda>i A. mat_set A j (i + 1) (mat_get A j i * xvals ! j)) [0..<m] A) [0..<n] A) = length A \<and>
    (\<forall>r<length A.
       fold (\<lambda>j A. fold (\<lambda>i A. mat_set A j (i + 1) (mat_get A j i * xvals ! j)) [0..<m] A) [0..<n] A ! r =
       (if r < n then map (\<lambda>i. (xvals ! r) ^ i) [0..<Suc m] else A ! r))"
proof (induction n)
  case 0
  show ?case by simp
next
  case (Suc n)
  let ?B = "fold (\<lambda>j A. fold (\<lambda>i A. mat_set A j (i + 1) (mat_get A j i * xvals ! j)) [0..<m] A) [0..<n] A"
  from Suc have ih: "length ?B = length A"
    "\<forall>r<length A. ?B ! r = (if r < n then map (\<lambda>i. (xvals ! r) ^ i) [0..<Suc m] else A ! r)"
    by simp_all
  from Suc.prems have n: "n < length A" by simp
  with ih have Bn: "?B ! n = A ! n" by simp
  with assms n have "length (?B ! n) = Suc m" "?B ! n ! 0 = 1" by simp_all
  then have row: "fold (\<lambda>i row. row[i + 1 := row ! i * xvals ! n]) [0..<m] (?B ! n) =
      map (\<lambda>i. (xvals ! n) ^ i) [0..<Suc m]"
    by (rule powers_row)
  have "fold (\<lambda>j A. fold (\<lambda>i A. mat_set A j (i + 1) (mat_get A j i * xvals ! j)) [0..<m] A) [0..<Suc n] A =
      fold (\<lambda>i A. mat_set A n (i + 1) (mat_get A n i * xvals ! n)) [0..<m] ?B"
    by simp
  also have "\<dots> = ?B[n := fold (\<lambda>i row. row[i + 1 := row ! i * xvals ! n]) [0..<m] (?B ! n)]"
    using n ih(1) by (intro row_loop) simp
  finally have step: "fold (\<lambda>j A. fold (\<lambda>i A. mat_set A j (i + 1) (mat_get A j i * xvals ! j)) [0..<m] A) [0..<Suc n] A =
      ?B[n := map (\<lambda>i. (xvals ! n) ^ i) [0..<Suc m]]"
    using row by simp
  show ?case
    unfolding step using ih n by (auto simp: nth_list_update less_Suc_eq simp del: upt_Suc)
qed

lemma design_matrix_powers:
  assumes "0 \<le> order"
  shows "design_matrix xvals order = map (\<lambda>x. map (\<lambda>i. x ^ i) [0..<Suc (nat order)]) xvals"
proof -
  let ?m = "nat order"
  let ?A0 = "replicate (length xvals) (replicate (nat (order + 1)) (0::real))"
  let ?A1 = "fill_ones (length xvals) ?A0"
  have cols: "nat (order + 1) = Suc ?m"
    using assms by simp
  have A1: "length ?A1 = length xvals"
    "\<forall>r<length xvals. ?A1 ! r = (replicate (Suc ?m) 0)[0 := 1]"
    using fill_ones_nth [of "length xvals" ?A0] by (simp_all add: cols)
  then have pre: "\<forall>r<length ?A1. length (?A1 ! r) = Suc ?m \<and> ?A1 ! r ! 0 = 1"
    by simp
  have "length (design_matrix xvals order) = length xvals \<and>
      (\<forall>r<length xvals. design_matrix xvals order ! r = map (\<lambda>i. (xvals ! r) ^ i) [0..<Suc ?m])"
    using rows_loop [OF pre, of "length xvals" xvals] A1(1)
    by (simp add: design_matrix_def fill_powers_def del: upt_Suc)
  then show ?thesis
    by (intro nth_equalityI) (simp_all del: upt_Suc)
qed

lemma design_matrix_length: "length (design_matrix xs 3) = length xs"
  by (simp add: design_matrix_powers del: upt_Suc)

text \<open>
  C5, as the code has it. \<^verbatim>\<open>polyfit\<close> asserts \<open>len(xs) = len(ys)\<close> and
  \<open>1 \<le> order \<le> len(xs) - 1\<close>. When an assertion fails the process is aborted; no
  recoverable error is signalled. When both hold, the result is the solve of the
  Vandermonde system.
\<close>

theorem polyfit_asserts:
  "polyfit qr_solve xvals yvals order =
     (if length xvals = length yvals \<and> 1 \<le> order \<and> order \<le> int (length xvals) - 1
      then Inr (qr_solve (map (\<lambda>x. map (\<lambda>i. x ^ i) [0..<nat order + 1]) xvals) yvals)
      else Inl AssertionFailure)"
  by (simp add: polyfit_def design_matrix_powers del: upt_Suc)

text \<open>
  C5, as stated, fails: fitting a cubic to two points does not signal a recoverable error
  but fails the second assertion.
\<close>

theorem polyfit_two_points_aborts:
  "polyfit example_qr_solve [0, 10] [0, 0] 3 = Inl AssertionFailure"
  by (simp add: polyfit_def)

subsection \<open>Recovering a cubic from its samples\<close>

lemma dot_powers_cubic:
  "dot (map (\<lambda>i. x ^ i) [0..<Suc (nat 3)]) [c0, c1, c2, c3] = c0 + c1 * x + c2 * x\<^sup>2 + c3 * x ^ 3"
  by (simp add: dot_def eval_nat_numeral upt_rec mult.commute)

lemma list_of_length_4:
  assumes "length c = 4"
  obtains c0 c1 c2 c3 where "c = [c0, c1, c2, c3]"
  using assms by (auto simp: length_Suc_conv eval_nat_numeral)

lemma residual_nonneg: "0 \<le> residual A b x"
  unfolding residual_def by (rule sum_list_nonneg) auto

lemma residual_zero_iff:
  assumes "length A = length b"
  shows "residual A b x = 0 \<longleftrightarrow> (\<forall>j<length A. dot (A ! j) x = b ! j)"
proof -
  have "residual A b x = 0 \<longleftrightarrow> (\<forall>e\<in>set (map2 (\<lambda>row bj. (dot row x - bj)\<^sup>2) A b). e = 0)"
    unfolding residual_def by (rule sum_list_nonneg_eq_0_iff) auto
  also have "\<dots> \<longleftrightarrow> (\<forall>j<length A. dot (A ! j) x = b ! j)"
    using assms by (auto simp: set_zip)
  finally show ?thesis .
qed

lemma design_row_dot:
  assumes j: "j < length xs" and v: "length v = 4"
  shows "dot (design_matrix xs 3 ! j) v = polyeval v (xs ! j)"
proof -
  obtain v0 v1 v2 v3 where "v = [v0, v1, v2, v3]"
    using v by (rule list_of_length_4)
  moreover have "design_matrix xs 3 ! j = map (\<lambda>i. (xs ! j) ^ i) [0..<Suc (nat 3)]"
    using j by (simp add: design_matrix_powers del: upt_Suc)
  ultimately show ?thesis
    by (simp only: dot_powers_cubic polyeval_cubic)
qed

lemma residual_generator_zero:
  assumes "length p = 4"
  shows "residual (design_matrix xs 3) (map (polyeval p) xs) p = 0"
proof -
  have "length (design_matrix xs 3) = length (map (polyeval p) xs)"
    by (simp add: design_matrix_length)
  then show ?thesis
    using assms by (simp add: residual_zero_iff design_matrix_length design_row_dot)
qed

lemma exact_fit_is_least_squares:
  "residual A b x = 0 \<Longrightarrow> least_squares_solution A b x"
  by (simp add: least_squares_solution_def residual_nonneg)

text \<open>
  A cubic with four distinct roots is the zero polynomial.
\<close>

lemma cubic_four_roots:
  fixes a b c d e0 e1 e2 e3 :: real
  assumes ne: "a \<noteq> b" "a \<noteq> c" "a \<noteq> d" "b \<noteq> c" "b \<noteq> d" "c \<noteq> d"
    and pa: "e0 + e1 * a + e2 * a\<^sup>2 + e3 * a ^ 3 = 0"
    and pb: "e0 + e1 * b + e2 * b\<^sup>2 + e3 * b ^ 3 = 0"
    and pc: "e0 + e1 * c + e2 * c\<^sup>2 + e3 * c ^ 3 = 0"
    and pd: "e0 + e1 * d + e2 * d\<^sup>2 + e3 * d ^ 3 = 0"
  shows "e0 = 0 \<and> e1 = 0 \<and> e2 = 0 \<and> e3 = 0"
proof -
  have "(a - b) * (e1 + e2 * (a + b) + e3 * (a\<^sup>2 + a * b + b\<^sup>2)) =
      (e0 + e1 * a + e2 * a\<^sup>2 + e3 * a ^ 3) - (e0 + e1 * b + e2 * b\<^sup>2 + e3 * b ^ 3)"
    by (simp add: algebra_simps power2_eq_square power3_eq_cube)
  with pa pb ne have qab: "e1 + e2 * (a + b) + e3 * (a\<^sup>2 + a * b + b\<^sup>2) = 0"
    by simp
  have "(a - c) * (e1 + e2 * (a + c) + e3 * (a\<^sup>2 + a * c + c\<^sup>2)) =
      (e0 + e1 * a + e2 * a\<^sup>2 + e3 * a ^ 3) - (e0 + e1 * c + e2 * c\<^sup>2 + e3 * c ^ 3)"
    by (simp add: algebra_simps power2_eq_square power3_eq_cube)
  with pa pc ne have qac: "e1 + e2 * (a + c) + e3 * (a\<^sup>2 + a * c + c\<^sup>2) = 0"
    by simp
  have "(a - d) * (e1 + e2 * (a + d) + e3 * (a\<^sup>2 + a * d + d\<^sup>2)) =
      (e0 + e1 * a + e2 * a\<^sup>2 + e3 * a ^ 3) - (e0 + e1 * d + e2 * d\<^sup>2 + e3 * d ^ 3)"
    by (simp add: algebra_simps power2_eq_square power3_eq_cube)
  with pa pd ne have qad: "e1 + e2 * (a + d) + e3 * (a\<^sup>2 + a * d + d\<^sup>2) = 0"
    by simp
  have "(b - c) * (e2 + e3 * (a + b + c)) =
      (e1 + e2 * (a + b) + e3 * (a\<^sup>2 + a * b + b\<^sup>2)) - (e1 + e2 * (a + c) + e3 * (a\<^sup>2 + a * c + c\<^sup>2))"
    by (simp add: algebra_simps power2_eq_square)
  with qab qac ne have rc: "e2 + e3 * (a + b + c) = 0"
    by simp
  have "(b - d) * (e2 + e3 * (a + b + d)) =
      (e1 + e2 * (a + b) + e3 * (a\<^sup>2 + a * b + b\<^sup>2)) - (e1 + e2 * (a + d) + e3 * (a\<^sup>2 + a * d + d\<^sup>2))"
    by (simp add: algebra_simps power2_eq_square)
  with qab qad ne have rd: "e2 + e3 * (a + b + d) = 0"
    by simp
  have "(c - d) * e3 = (e2 + e3 * (a + b + c)) - (e2 + e3 * (a + b + d))"
    by (simp add: algebra_simps)
  with rc rd ne have e3: "e3 = 0"
    by simp
  with rc have e2: "e2 = 0" by simp
  with qab e3 have e1: "e1 = 0" by simp
  with pa e2 e3 have "e0 = 0" by simp
  with e1 e2 e3 show ?thesis by simp
qed

text \<open>
  C7. For every cubic \<open>p\<close> and every sequence of four or more distinct sample points,
  fitting a polynomial of order 3 to the points \<open>(x\<^sub>i, p(x\<^sub>i))\<close> returns exactly the
  coefficients of \<open>p\<close>, in real arithmetic, given that the linear solve returns four
  coefficients that are a least-squares solution of the system \<^verbatim>\<open>polyfit\<close> hands it.
\<close>

theorem polyfit_recovers_cubic:
  assumes p: "length p = 4"
    and xs: "distinct xs" "4 \<le> length xs"
    and len: "length (qr_solve (design_matrix xs 3) (map (polyeval p) xs)) = 4"
    and lsq: "least_squares_solution (design_matrix xs 3) (map (polyeval p) xs)
                (qr_solve (design_matrix xs 3) (map (polyeval p) xs))"
  shows "polyfit qr_solve xs (map (polyeval p) xs) 3 = Inr p"
proof -
  let ?A = "design_matrix xs 3"
  let ?ys = "map (polyeval p) xs"
  define c where "c = qr_solve ?A ?ys"
  have lenA: "length ?A = length ?ys"
    by (simp add: design_matrix_length)
  obtain p0 p1 p2 p3 where p4: "p = [p0, p1, p2, p3]"
    using p by (rule list_of_length_4)
  have lenc: "length c = 4"
    using len by (simp add: c_def)
  obtain c0 c1 c2 c3 where c4: "c = [c0, c1, c2, c3]"
    using lenc by (rule list_of_length_4)
  have "residual ?A ?ys c \<le> residual ?A ?ys p"
    using lsq lenc p unfolding c_def [symmetric] by (simp add: least_squares_solution_def)
  then have "residual ?A ?ys c = 0"
    using residual_nonneg [of ?A ?ys c] residual_generator_zero [OF p, of xs] by linarith
  then have fit: "\<forall>j<length ?A. dot (?A ! j) c = ?ys ! j"
    by (simp only: residual_zero_iff [OF lenA])
  have agree: "polyeval c (xs ! j) = polyeval p (xs ! j)" if "j < length xs" for j
  proof -
    from fit that have "dot (?A ! j) c = polyeval p (xs ! j)"
      by (simp add: design_matrix_length)
    with design_row_dot [OF that lenc] show ?thesis
      by simp
  qed
  have d: "xs ! 0 \<noteq> xs ! 1" "xs ! 0 \<noteq> xs ! 2" "xs ! 0 \<noteq> xs ! 3"
    "xs ! 1 \<noteq> xs ! 2" "xs ! 1 \<noteq> xs ! 3" "xs ! 2 \<noteq> xs ! 3"
  proof -
    have neq: "xs ! i \<noteq> xs ! j" if "i < 4" "j < 4" "i \<noteq> j" for i j
    proof -
      from that xs have "i < length xs" "j < length xs" by simp_all
      with xs(1) that(3) show ?thesis by (simp add: nth_eq_iff_index_eq)
    qed
    show "xs ! 0 \<noteq> xs ! 1" "xs ! 0 \<noteq> xs ! 2" "xs ! 0 \<noteq> xs ! 3"
      "xs ! 1 \<noteq> xs ! 2" "xs ! 1 \<noteq> xs ! 3" "xs ! 2 \<noteq> xs ! 3"
      by (rule neq; simp)+
  qed
  have e: "(c0 - p0) + (c1 - p1) * t + (c2 - p2) * t\<^sup>2 + (c3 - p3) * t ^ 3 = 0"
    if "polyeval c t = polyeval p t" for t
    using that unfolding c4 p4 polyeval_cubic by (simp add: algebra_simps)
  have "c0 - p0 = 0 \<and> c1 - p1 = 0 \<and> c2 - p2 = 0 \<and> c3 - p3 = 0"
    using d
  proof (rule cubic_four_roots)
    show "(c0 - p0) + (c1 - p1) * xs ! 0 + (c2 - p2) * (xs ! 0)\<^sup>2 + (c3 - p3) * (xs ! 0) ^ 3 = 0"
      using xs by (intro e agree) linarith
    show "(c0 - p0) + (c1 - p1) * xs ! 1 + (c2 - p2) * (xs ! 1)\<^sup>2 + (c3 - p3) * (xs ! 1) ^ 3 = 0"
      using xs by (intro e agree) linarith
    show "(c0 - p0) + (c1 - p1) * xs ! 2 + (c2 - p2) * (xs ! 2)\<^sup>2 + (c3 - p3) * (xs ! 2) ^ 3 = 0"
      using xs by (intro e agree) linarith
    show "(c0 - p0) + (c1 - p1) * xs ! 3 + (c2 - p2) * (xs ! 3)\<^sup>2 + (c3 - p3) * (xs ! 3) ^ 3 = 0"
      using xs by (intro e agree) linarith
  qed
  then have "c = p"
    by (simp add: c4 p4)
  then show ?thesis
    using xs by (simp add: polyfit_def c_def)
qed

theorem polyfit_recovers_cubic_witness:
  "polyfit example_qr_solve [0, 1, 2, 3] (map (polyeval [0, 0, 1, 0]) [0, 1, 2, 3]) 3 =
     Inr [0, 0, 1, 0]"
proof -
  have p: "length [0, 0, 1, 0 :: real] = 4" by simp
  have xs: "distinct [0, 1, 2, 3 :: real]" "4 \<le> length [0, 1, 2, 3 :: real]"
    by simp_all
  have q: "example_qr_solve (design_matrix [0, 1, 2, 3] 3) (map (polyeval [0, 0, 1, 0]) [0, 1, 2, 3]) =
      [0, 0, 1, 0]"
    by (simp add: example_qr_solve_def)
  have len: "length (example_qr_solve (design_matrix [0, 1, 2, 3] 3)
      (map (polyeval [0, 0, 1, 0]) [0, 1, 2, 3])) = 4"
    by (simp add: example_qr_solve_def)
  have lsq: "least_squares_solution (design_matrix [0, 1, 2, 3] 3)
      (map (polyeval [0, 0, 1, 0]) [0, 1, 2, 3])
      (example_qr_solve (design_matrix [0, 1, 2, 3] 3) (map (polyeval [0, 0, 1, 0]) [0, 1, 2, 3]))"
    unfolding q by (rule exact_fit_is_least_squares, rule residual_generator_zero) simp
  from polyfit_recovers_cubic [where qr_solve = example_qr_solve, OF p xs len lsq]
  show ?thesis .
qed

subsection \<open>The telemetry branch\<close>

lemma telemetry_branch_processed:
  assumes "transform_waypoints (t_ptsx t) (t_ptsy t) (t_x t) (t_y t) (t_psi t) = Inr (ptsx_car, ptsy_car)"
    and "polyfit qr_solve ptsx_car ptsy_car 3 = Inr coeffs"
    and "1 < length coeffs"
  shows "telemetry_branch qr_solve mpc_solve t =
     \<lparr> outcome = send_controls
         (mpc_solve [0, 0, 0, t_speed t, polyeval coeffs 0, 0 - arctan (coeffs ! 1)] coeffs)
         ptsx_car ptsy_car,
       solver_calls = [([0, 0, 0, t_speed t, polyeval coeffs 0, 0 - arctan (coeffs ! 1)], coeffs)] \<rparr>"
  using assms by (simp add: telemetry_branch_def Let_def)

text \<open>
  Every record with two waypoint sequences of the same length, at least four, reaches the
  fit, and the fit returns what the linear solve returns.
\<close>

lemma telemetry_branch_reaches_fit:
  assumes "length (t_ptsx t) = length (t_ptsy t)" "4 \<le> length (t_ptsx t)"
  shows "\<exists>ptsx_car ptsy_car.
      transform_waypoints (t_ptsx t) (t_ptsy t) (t_x t) (t_y t) (t_psi t) = Inr (ptsx_car, ptsy_car)
    \<and> polyfit qr_solve ptsx_car ptsy_car 3 = Inr (qr_solve (design_matrix ptsx_car 3) ptsy_car)"
  using assms by (simp add: transform_waypoints_zip polyfit_def)

lemma example_transform:
  "transform_waypoints (t_ptsx example_telemetry) (t_ptsy example_telemetry)
     (t_x example_telemetry) (t_y example_telemetry) (t_psi example_telemetry) =
   Inr ([0, 1, 2, 3], [0, 1, 4, 9])"
  by (simp add: example_telemetry_def transform_waypoints_zip)

lemma example_fit:
  "polyfit example_qr_solve [0, 1, 2, 3] [0, 1, 4, 9] 3 = Inr [0, 0, 1, 0]"
  by (simp add: polyfit_def example_qr_solve_def)

lemma offset_transform:
  "transform_waypoints (t_ptsx offset_telemetry) (t_ptsy offset_telemetry)
     (t_x offset_telemetry) (t_y offset_telemetry) (t_psi offset_telemetry) =
   Inr ([0, 1, 2, 3], [2, 3, 4, 5])"
  by (simp add: offset_telemetry_def transform_waypoints_zip)

lemma offset_fit:
  "polyfit offset_qr_solve [0, 1, 2, 3] [2, 3, 4, 5] 3 = Inr [2, 1, 0, 0]"
  by (simp add: polyfit_def offset_qr_solve_def)

text \<open>
  C1. For every telemetry record processed, with \<open>coeffs\<close> the coefficients that the fit
  produced, \<^verbatim>\<open>mpc.Solve\<close> is called once, with the state
  \<open>(0, 0, 0, v, cte, epsi)\<close>. The cross-track error \<open>cte\<close> is the fitted polynomial
  evaluated at 0: it is the value \<^verbatim>\<open>polyeval\<close> returns at 0, which is the sum of
  \<open>coeffs[i] \<cdot> 0\<^sup>i\<close> and so the constant coefficient. The heading error \<open>epsi\<close> is
  \<open>0 - arctan (coeffs[1])\<close>.
\<close>

theorem initial_errors_from_fit:
  assumes "transform_waypoints (t_ptsx t) (t_ptsy t) (t_x t) (t_y t) (t_psi t) = Inr (ptsx_car, ptsy_car)"
    and "polyfit qr_solve ptsx_car ptsy_car 3 = Inr coeffs"
    and "1 < length coeffs"
  shows "solver_calls (telemetry_branch qr_solve mpc_solve t) =
           [([0, 0, 0, t_speed t, coeffs ! 0, 0 - arctan (coeffs ! 1)], coeffs)]
       \<and> polyeval coeffs 0 = coeffs ! 0
       \<and> (\<Sum>i<length coeffs. coeffs ! i * 0 ^ i) = coeffs ! 0"
proof -
  from assms(3) have pos: "0 < length coeffs" by linarith
  have "solver_calls (telemetry_branch qr_solve mpc_solve t) =
      [([0, 0, 0, t_speed t, polyeval coeffs 0, 0 - arctan (coeffs ! 1)], coeffs)]"
    using assms by (simp add: telemetry_branch_processed)
  then show ?thesis
    using polyeval_at_zero [OF pos] power_sum_at_zero [OF pos] by simp
qed

theorem initial_errors_from_fit_witness:
  "1 < length [2, 1, 0, 0 :: real]
   \<and> solver_calls (telemetry_branch offset_qr_solve example_mpc_solve offset_telemetry) =
       [([0, 0, 0, 5, 2, - (pi / 4)], [2, 1, 0, 0])]
   \<and> polyeval [2, 1, 0, 0] 0 = 2"
proof -
  have c: "1 < length [2, 1, 0, 0 :: real]" by simp
  from initial_errors_from_fit [where qr_solve = offset_qr_solve and mpc_solve = example_mpc_solve,
      OF offset_transform offset_fit c]
  show ?thesis
    by (simp add: offset_telemetry_def arctan_one)
qed

text \<open>
  C4, as stated, fails: a record with two waypoints takes no error path and sends nothing;
  the second assertion of \<^verbatim>\<open>polyfit\<close> fails and the process is aborted.
\<close>

theorem short_telemetry_aborts:
  "telemetry_branch example_qr_solve example_mpc_solve short_telemetry =
     \<lparr> outcome = Inl AssertionFailure, solver_calls = [] \<rparr>"
  by (simp add: telemetry_branch_def short_telemetry_def transform_waypoints_zip polyfit_def)

text \<open>
  C4, as the code has it. For every telemetry record whose two waypoint sequences have the
  same length, less than four, the assertion of \<^verbatim>\<open>polyfit\<close> fails: the process is
  aborted, no command is sent and \<^verbatim>\<open>mpc.Solve\<close> is never called.
\<close>

theorem too_few_waypoints_abort:
  assumes "length (t_ptsx t) = length (t_ptsy t)" "length (t_ptsx t) < 4"
  shows "telemetry_branch qr_solve mpc_solve t = \<lparr> outcome = Inl AssertionFailure, solver_calls = [] \<rparr>"
  using assms by (simp add: telemetry_branch_def transform_waypoints_zip polyfit_def)

theorem too_few_waypoints_abort_witness:
  "length (t_ptsx short_telemetry) = length (t_ptsy short_telemetry)
   \<and> length (t_ptsx short_telemetry) < 4
   \<and> outcome (telemetry_branch example_qr_solve example_mpc_solve short_telemetry) = Inl AssertionFailure"
proof -
  have h: "length (t_ptsx short_telemetry) = length (t_ptsy short_telemetry)"
    "length (t_ptsx short_telemetry) < 4"
    by (simp_all add: short_telemetry_def)
  from too_few_waypoints_abort [OF h, of example_qr_solve example_mpc_solve] h
  show ?thesis by simp
qed

text \<open>
  The same at the level of the message handler, beside the one path of the handler that
  does send a neutral reply: a message without payload is answered with
  \<^verbatim>\<open>manual\<close>. A record whose \<^verbatim>\<open>ptsy\<close> is shorter than its \<^verbatim>\<open>ptsx\<close> reads
  past the end of \<^verbatim>\<open>ptsy\<close> in the transform loop.
\<close>

lemma onMessage_no_payload:
  assumes "2 < length sdata" "sdata ! 0 = CHR ''4''" "sdata ! 1 = CHR ''2''"
    and "hasData sdata = Inr ''''"
  shows "onMessage json_event json_telemetry qr_solve mpc_solve sdata =
     \<lparr> outcome = Inr (Some Manual), solver_calls = [] \<rparr>"
  using assms by (simp add: onMessage_def)

lemma onMessage_too_few_waypoints:
  assumes "2 < length sdata" "sdata ! 0 = CHR ''4''" "sdata ! 1 = CHR ''2''"
    and "hasData sdata = Inr s" "s \<noteq> ''''"
    and "json_event s = Some ''telemetry''" "json_telemetry s = Some t"
    and "length (t_ptsx t) = length (t_ptsy t)" "length (t_ptsx t) < 4"
  shows "onMessage json_event json_telemetry qr_solve mpc_solve sdata =
     \<lparr> outcome = Inl AssertionFailure, solver_calls = [] \<rparr>"
  using assms
  by (simp add: onMessage_def telemetry_branch_def transform_waypoints_zip polyfit_def)

lemma telemetry_branch_short_ptsy:
  assumes "length (t_ptsy t) < length (t_ptsx t)"
  shows "telemetry_branch qr_solve mpc_solve t =
     \<lparr> outcome = Inl UndefinedBehaviour, solver_calls = [] \<rparr>"
  using assms
  by (simp add: telemetry_branch_def transform_waypoints_def transform_loop_short)

text \<open>
  C6. The steering sign is inverted once, at the output: the \<^verbatim>\<open>steering_angle\<close> sent is
  the negation of the first value that \<^verbatim>\<open>mpc.Solve\<close> returns, the throttle is its
  second value as it is, and the state handed to \<^verbatim>\<open>mpc.Solve\<close> is computed before and
  without any steering value. In the dynamics model of the specification, a steering value
  turns the heading in its own direction when the vehicle moves forward.
\<close>

theorem steering_negated_at_output:
  assumes "transform_waypoints (t_ptsx t) (t_ptsy t) (t_x t) (t_y t) (t_psi t) = Inr (ptsx_car, ptsy_car)"
    and "polyfit qr_solve ptsx_car ptsy_car 3 = Inr coeffs"
    and "1 < length coeffs"
    and "state = [0, 0, 0, t_speed t, polyeval coeffs 0, 0 - arctan (coeffs ! 1)]"
    and "2 \<le> length (mpc_solve state coeffs)"
    and "0 < st_v s" "0 < Lf" "0 < dt"
  shows "map_sum id steering_angle (outcome (telemetry_branch qr_solve mpc_solve t)) =
           Inr (- (mpc_solve state coeffs ! 0))
       \<and> map_sum id throttle (outcome (telemetry_branch qr_solve mpc_solve t)) =
           Inr (mpc_solve state coeffs ! 1)
       \<and> solver_calls (telemetry_branch qr_solve mpc_solve t) = [(state, coeffs)]
       \<and> sgn (st_psi (dynamics_step Lf dt f psi_des s delta a) - st_psi s) = sgn delta"
proof -
  have "sgn (st_v s / Lf * delta * dt) = sgn delta"
    using assms(6-8) by (simp add: sgn_mult sgn_divide)
  then show ?thesis
    using assms(1-5) by (simp add: telemetry_branch_processed send_controls_def dynamics_step_def Let_def)
qed

theorem steering_negated_at_output_witness:
  "map_sum id steering_angle
     (outcome (telemetry_branch example_qr_solve example_mpc_solve example_telemetry)) = Inr (- 0.1)
   \<and> map_sum id throttle
     (outcome (telemetry_branch example_qr_solve example_mpc_solve example_telemetry)) = Inr 0.5
   \<and> solver_calls (telemetry_branch example_qr_solve example_mpc_solve example_telemetry) =
       [([0, 0, 0, 5, 0, 0], [0, 0, 1, 0])]
   \<and> sgn (st_psi (dynamics_step 2.67 0.1 example_path arctan example_state 0.1 0.5)
            - st_psi example_state) = sgn (0.1 :: real)"
proof -
  have st: "[0, 0, 0, 5, 0, 0] =
      [0, 0, 0, t_speed example_telemetry, polyeval [0, 0, 1, 0] 0, 0 - arctan ([0, 0, 1, 0] ! 1)]"
    by (simp add: example_telemetry_def polyeval_cubic)
  have l: "2 \<le> length (example_mpc_solve [0, 0, 0, 5, 0, 0] [0, 0, 1, 0])"
    by (simp add: example_mpc_solve_def)
  have v: "0 < st_v example_state" "(0::real) < 2.67" "(0::real) < 0.1"
    by (simp_all add: example_state_def)
  have c: "1 < length [0, 0, 1, 0 :: real]"
    by simp
  from steering_negated_at_output [where t = example_telemetry and qr_solve = example_qr_solve
      and mpc_solve = example_mpc_solve and state = "[0, 0, 0, 5, 0, 0]" and s = example_state
      and f = example_path and psi_des = arctan and delta = "0.1" and a = "0.5",
      OF example_transform example_fit c st l v]
  show ?thesis
    by (simp add: example_mpc_solve_def)
qed

text \<open>
  C3. On the example record, with an optimizer answer whose first steering value is
  0.1 rad, the \<^verbatim>\<open>steering_angle\<close> sent is \<open>- 0.1\<close>, the raw angle in radians: it is not
  divided by \<^verbatim>\<open>deg2rad(25)\<close>, which the note beside the assignment asks for.
\<close>

theorem steering_angle_sent_unscaled:
  "map_sum id steering_angle
     (outcome (telemetry_branch example_qr_solve example_mpc_solve example_telemetry)) = Inr (- 0.1)
   \<and> (- 0.1 :: real) \<noteq> - 0.1 / deg2rad 25"
proof -
  have "deg2rad 25 \<noteq> 1"
    using pi_less_4 by (simp add: deg2rad_def)
  then have "(- 0.1 :: real) \<noteq> - 0.1 / deg2rad 25"
    by simp
  moreover have "map_sum id steering_angle
     (outcome (telemetry_branch example_qr_solve example_mpc_solve example_telemetry)) = Inr (- 0.1)"
    using telemetry_branch_processed [OF example_transform example_fit, of example_mpc_solve]
    by (simp add: send_controls_def example_mpc_solve_def)
  ultimately show ?thesis by simp
qed

end
